theory Spec2Isabelle
  imports Main "HOL-Library.AList"
begin

section \<open>Expressions\<close>

text \<open>
  The four expression classes of \<^verbatim>\<open>backward_chaining_fol.py\<close>. Python's
  \<^verbatim>\<open>__eq__\<close> of each class compares the class and the fields, which is the
  equality of this datatype.
\<close>

datatype expr =
    Variable string
  | Constant string
  | Function string "expr list"
  | Predicate string "expr list"

datatype py_error = AttributeError

fun is_variable :: "expr \<Rightarrow> bool" where
  "is_variable (Variable n) = True"
| "is_variable e = False"

fun is_compound :: "expr \<Rightarrow> bool" where
  "is_compound (Function n as) = True"
| "is_compound (Predicate n as) = True"
| "is_compound e = False"

text \<open>The attribute \<^verbatim>\<open>.name\<close>, which every class has.\<close>

fun name_of :: "expr \<Rightarrow> string" where
  "name_of (Variable n) = n"
| "name_of (Constant n) = n"
| "name_of (Function n as) = n"
| "name_of (Predicate n as) = n"

text \<open>
  The attribute \<^verbatim>\<open>.args\<close>: only \<^verbatim>\<open>Function\<close> and \<^verbatim>\<open>Predicate\<close> have it,
  reading it from a variable or a constant raises \<^verbatim>\<open>AttributeError\<close>.
\<close>

fun args_of :: "expr \<Rightarrow> py_error + expr list" where
  "args_of (Function n as) = Inr as"
| "args_of (Predicate n as) = Inr as"
| "args_of e = Inl AttributeError"

section \<open>Knowledge base\<close>

record clause =
  head :: expr
  body :: "expr list"

text \<open>
  \<^verbatim>\<open>index\<close> is a \<^verbatim>\<open>defaultdict\<close> of \<^verbatim>\<open>defaultdict(list)\<close>: a map from names to
  maps from arities to buckets. Subscripting creates a missing entry, \<^verbatim>\<open>.get\<close> does not.
\<close>

record knowledge_base =
  clauses :: "clause list"
  index :: "string \<rightharpoonup> (nat \<rightharpoonup> clause list)"

definition empty_kb :: knowledge_base where
  "empty_kb = \<lparr>clauses = [], index = Map.empty\<rparr>"

definition add_clause :: "clause \<Rightarrow> knowledge_base \<Rightarrow> py_error + knowledge_base" where
  "add_clause c kb =
     (case args_of (head c) of
        Inl e \<Rightarrow> Inl e
      | Inr as \<Rightarrow>
          (let nm = name_of (head c);
               inner = (case index kb nm of None \<Rightarrow> Map.empty | Some d \<Rightarrow> d);
               bucket = (case inner (length as) of None \<Rightarrow> [] | Some b \<Rightarrow> b)
           in Inr \<lparr>clauses = clauses kb @ [c],
                    index = (index kb)(nm \<mapsto> inner(length as \<mapsto> bucket @ [c]))\<rparr>))"

definition fetch_clauses_for_goal :: "knowledge_base \<Rightarrow> expr \<Rightarrow> py_error + clause list" where
  "fetch_clauses_for_goal kb goal =
     (case args_of goal of
        Inl e \<Rightarrow> Inl e
      | Inr as \<Rightarrow>
          Inr (case index kb (name_of goal) of
                 None \<Rightarrow> []
               | Some d \<Rightarrow> (case d (length as) of None \<Rightarrow> [] | Some b \<Rightarrow> b)))"

text \<open>A sequence of \<^verbatim>\<open>add_clause\<close> calls; an exception ends it.\<close>

fun add_clauses :: "clause list \<Rightarrow> knowledge_base \<Rightarrow> py_error + knowledge_base" where
  "add_clauses [] kb = Inr kb"
| "add_clauses (c # cs) kb =
     (case add_clause c kb of Inl e \<Rightarrow> Inl e | Inr kb' \<Rightarrow> add_clauses cs kb')"

text \<open>The bucket of a name and an arity, empty when the index has none.\<close>

definition bucket_of :: "knowledge_base \<Rightarrow> string \<Rightarrow> nat \<Rightarrow> clause list" where
  "bucket_of kb nm ar =
     (case index kb nm of
        None \<Rightarrow> []
      | Some d \<Rightarrow> (case d ar of None \<Rightarrow> [] | Some b \<Rightarrow> b))"

text \<open>The signature (name, arity) of a clause whose head has arguments.\<close>

definition has_signature :: "string \<Rightarrow> nat \<Rightarrow> clause \<Rightarrow> bool" where
  "has_signature nm ar c =
     (name_of (head c) = nm \<and> (case args_of (head c) of Inl e \<Rightarrow> False | Inr as \<Rightarrow> length as = ar))"

definition index_consistent :: "knowledge_base \<Rightarrow> bool" where
  "index_consistent kb =
     (\<forall>nm ar. bucket_of kb nm ar = filter (has_signature nm ar) (clauses kb))"

section \<open>Substitutions\<close>

text \<open>
  A substitution is a Python dict from expressions to expressions: an association list
  with distinct keys in insertion order. \<^verbatim>\<open>x in theta\<close> is \<open>map_of \<theta> x \<noteq> None\<close>,
  \<^verbatim>\<open>theta[x]\<close> reads it, and \<^verbatim>\<open>theta[var] = x\<close> on a copy is \<open>AList.update\<close>, which
  overwrites an existing key in place and appends a new one.
\<close>

type_synonym theta = "(expr \<times> expr) list"

text \<open>
  The recursion of \<^verbatim>\<open>substitute\<close> follows the bindings and need not end (a dict with
  \<^verbatim>\<open>{x: x}\<close> recurses until the interpreter gives up). The first argument bounds the
  depth of the recursion; \<open>None\<close> is a run that went beyond it.
\<close>

fun substitute :: "nat \<Rightarrow> expr \<Rightarrow> theta \<Rightarrow> expr option" where
  "substitute 0 x \<theta> = None"
| "substitute (Suc n) (Variable v) \<theta> =
     (case map_of \<theta> (Variable v) of
        Some t \<Rightarrow> substitute n t \<theta>
      | None \<Rightarrow> Some (Variable v))"
| "substitute (Suc n) (Function f as) \<theta> =
     map_option (Function f) (those (map (\<lambda>a. substitute n a \<theta>) as))"
| "substitute (Suc n) (Predicate p as) \<theta> =
     map_option (Predicate p) (those (map (\<lambda>a. substitute n a \<theta>) as))"
| "substitute (Suc n) (Constant c) \<theta> = Some (Constant c)"

text \<open>
  The loop of \<^verbatim>\<open>occurs_check\<close> over the arguments returns at the first argument
  that answers \<^verbatim>\<open>True\<close>; the later ones are not looked at.
\<close>

fun first_true :: "bool option list \<Rightarrow> bool option" where
  "first_true [] = Some False"
| "first_true (None # rs) = None"
| "first_true (Some True # rs) = Some True"
| "first_true (Some False # rs) = first_true rs"

fun occurs_check :: "nat \<Rightarrow> expr \<Rightarrow> expr \<Rightarrow> theta \<Rightarrow> bool option" where
  "occurs_check 0 var x \<theta> = None"
| "occurs_check (Suc n) var x \<theta> =
     (case substitute n x \<theta> of
        None \<Rightarrow> None
      | Some x' \<Rightarrow>
          if var = x' then Some True
          else (case x' of
                  Function f as \<Rightarrow> first_true (map (\<lambda>a. occurs_check n var a \<theta>) as)
                | Predicate p as \<Rightarrow> first_true (map (\<lambda>a. occurs_check n var a \<theta>) as)
                | _ \<Rightarrow> Some False))"

section \<open>Unification\<close>

datatype py_class = VariableC | ConstantC | FunctionC | PredicateC

fun class_of :: "expr \<Rightarrow> py_class" where
  "class_of (Variable n) = VariableC"
| "class_of (Constant n) = ConstantC"
| "class_of (Function n as) = FunctionC"
| "class_of (Predicate n as) = PredicateC"

text \<open>\<^verbatim>\<open>.args\<close> where \<^verbatim>\<open>is_compound\<close> has been tested before.\<close>

fun args :: "expr \<Rightarrow> expr list" where
  "args (Function n as) = as"
| "args (Predicate n as) = as"
| "args e = []"

text \<open>
  \<^verbatim>\<open>unify\<close> returns the extended dict or Python's \<^verbatim>\<open>None\<close> (failure): a
  \<open>theta option\<close>. The outer \<open>option\<close> is the bound on the recursion depth again.
  \<open>unify_args\<close> is the \<^verbatim>\<open>for\<close> loop over \<^verbatim>\<open>zip(x.args, y.args)\<close>.
\<close>

function (sequential) unify :: "nat \<Rightarrow> expr \<Rightarrow> expr \<Rightarrow> theta option \<Rightarrow> theta option option"
  and unify_var :: "nat \<Rightarrow> expr \<Rightarrow> expr \<Rightarrow> theta \<Rightarrow> theta option option"
  and unify_args :: "nat \<Rightarrow> (expr \<times> expr) list \<Rightarrow> theta option \<Rightarrow> theta option option"
where
  "unify 0 x y \<theta>o = None"
| "unify (Suc n) x y None = Some None"
| "unify (Suc n) x y (Some \<theta>) =
     (if x = y then Some (Some \<theta>)
      else (case substitute n x \<theta> of
              None \<Rightarrow> None
            | Some x' \<Rightarrow>
               (case substitute n y \<theta> of
                  None \<Rightarrow> None
                | Some y' \<Rightarrow>
                    if is_variable x' then unify_var n x' y' \<theta>
                    else if is_variable y' then unify_var n y' x' \<theta>
                    else if is_compound x' \<and> is_compound y' \<and> class_of x' = class_of y'
                            \<and> name_of x' = name_of y' \<and> length (args x') = length (args y')
                         then unify_args n (zip (args x') (args y')) (Some \<theta>)
                         else Some None)))"
| "unify_var 0 var x \<theta> = None"
| "unify_var (Suc n) var x \<theta> =
     (case map_of \<theta> var of
        Some t \<Rightarrow> unify n t x (Some \<theta>)
      | None \<Rightarrow>
          (case (if is_variable x then map_of \<theta> x else None) of
             Some t \<Rightarrow> unify n var t (Some \<theta>)
           | None \<Rightarrow>
               (case occurs_check n var x \<theta> of
                  None \<Rightarrow> None
                | Some True \<Rightarrow> Some None
                | Some False \<Rightarrow> Some (Some (AList.update var x \<theta>)))))"
| "unify_args n [] \<theta>o = Some \<theta>o"
| "unify_args n ((a, b) # ps) \<theta>o =
     (case unify n a b \<theta>o of
        None \<Rightarrow> None
      | Some None \<Rightarrow> Some None
      | Some (Some \<theta>') \<Rightarrow> unify_args n ps (Some \<theta>'))"
  by pat_completeness auto

termination
  by (relation "inv_image (less_than <*lex*> less_than)
        (\<lambda>x. case x of
           Inl (n, _) \<Rightarrow> (n, 0)
         | Inr (Inl (n, _)) \<Rightarrow> (n, 0)
         | Inr (Inr (n, ps, _)) \<Rightarrow> (n, Suc (length ps)))") auto

section \<open>Standardizing apart\<close>

text \<open>Python's decimal rendering of a non-negative \<^verbatim>\<open>int\<close> in an f-string.\<close>

definition digit_char :: "nat \<Rightarrow> char" where
  "digit_char d = char_of (48 + d)"

fun str_nat :: "nat \<Rightarrow> string" where
  "str_nat n = (if n < 10 then [digit_char n] else str_nat (n div 10) @ [digit_char (n mod 10)])"

text \<open>
  The inner function \<^verbatim>\<open>rename\<close> with its dict \<^verbatim>\<open>mapping\<close> threaded through, at the
  value \<open>c\<close> of the global counter.
\<close>

fun rename :: "nat \<Rightarrow> expr \<Rightarrow> theta \<Rightarrow> expr \<times> theta"
  and rename_list :: "nat \<Rightarrow> expr list \<Rightarrow> theta \<Rightarrow> expr list \<times> theta"
where
  "rename c (Variable n) m =
     (case map_of m (Variable n) of
        None \<Rightarrow> (Variable (''_'' @ n @ str_nat c),
                  AList.update (Variable n) (Variable (''_'' @ n @ str_nat c)) m)
      | Some v \<Rightarrow> (v, m))"
| "rename c (Function f as) m = (case rename_list c as m of (as', m') \<Rightarrow> (Function f as', m'))"
| "rename c (Predicate p as) m = (case rename_list c as m of (as', m') \<Rightarrow> (Predicate p as', m'))"
| "rename c (Constant k) m = (Constant k, m)"
| "rename_list c [] m = ([], m)"
| "rename_list c (a # as) m =
     (case rename c a m of (a', m1) \<Rightarrow>
        (case rename_list c as m1 of (as', m2) \<Rightarrow> (a' # as', m2)))"

text \<open>Takes the global counter and returns the copy with the counter after the call.\<close>

definition standardize_apart :: "clause \<Rightarrow> nat \<Rightarrow> clause \<times> nat" where
  "standardize_apart cl counter =
     (let c = counter + 1 in
      case rename c (head cl) [] of (new_head, m1) \<Rightarrow>
        (case rename_list c (body cl) m1 of (new_body, m2) \<Rightarrow>
           (\<lparr>head = new_head, body = new_body\<rparr>, c)))"

section \<open>Backward chaining\<close>

fun join_comma :: "string list \<Rightarrow> string" where
  "join_comma [] = []"
| "join_comma [s] = s"
| "join_comma (s # t # ss) = s @ '', '' @ join_comma (t # ss)"

fun repr :: "expr \<Rightarrow> string" where
  "repr (Variable n) = n"
| "repr (Constant n) = n"
| "repr (Function n as) = n @ ''('' @ join_comma (map repr as) @ '')''"
| "repr (Predicate n as) = n @ ''('' @ join_comma (map repr as) @ '')''"

text \<open>
  A generator yields substitutions one by one, and the code that consumes one runs before
  the generator goes on. \<open>fol_bc_or\<close> and \<open>fol_bc_and\<close> take that consumer as the
  function \<open>k\<close> and return the substitutions the outermost generator yields, in order,
  with the way the run ends: finished with a value of the global counter, beyond the
  depth bound, or with an exception.
\<close>

datatype status = Finished nat | Diverged | Raised py_error

type_synonym outcome = "theta list \<times> status"

type_synonym visited = "(string \<times> (expr \<times> expr) set) set"

fun then_run :: "outcome \<Rightarrow> (nat \<Rightarrow> outcome) \<Rightarrow> outcome" where
  "then_run (ys, Finished c) f = (case f c of (zs, s) \<Rightarrow> (ys @ zs, s))"
| "then_run (ys, s) f = (ys, s)"

function (sequential) fol_bc_or :: "nat \<Rightarrow> knowledge_base \<Rightarrow> expr \<Rightarrow> theta \<Rightarrow> visited \<Rightarrow>
      (theta \<Rightarrow> nat \<Rightarrow> outcome) \<Rightarrow> nat \<Rightarrow> outcome"
  and or_loop :: "nat \<Rightarrow> knowledge_base \<Rightarrow> clause list \<Rightarrow> expr \<Rightarrow> theta \<Rightarrow> visited \<Rightarrow>
      (theta \<Rightarrow> nat \<Rightarrow> outcome) \<Rightarrow> nat \<Rightarrow> outcome"
  and fol_bc_and :: "nat \<Rightarrow> knowledge_base \<Rightarrow> expr list \<Rightarrow> theta option \<Rightarrow> visited \<Rightarrow>
      (theta \<Rightarrow> nat \<Rightarrow> outcome) \<Rightarrow> nat \<Rightarrow> outcome"
where
  "fol_bc_or 0 kb goal \<theta> visited k c = ([], Diverged)"
| "fol_bc_or (Suc n) kb goal \<theta> visited k c =
     (case substitute n goal \<theta> of
        None \<Rightarrow> ([], Diverged)
      | Some current \<Rightarrow>
          if (repr current, set \<theta>) \<in> visited then ([], Finished c)
          else (case fetch_clauses_for_goal kb goal of
                  Inl e \<Rightarrow> ([], Raised e)
                | Inr cls \<Rightarrow>
                    or_loop n kb cls current \<theta> (insert (repr current, set \<theta>) visited) k c))"
| "or_loop n kb [] current \<theta> new_visited k c = ([], Finished c)"
| "or_loop n kb (cl # cls) current \<theta> new_visited k c =
     (case standardize_apart cl c of (clause_copy, c1) \<Rightarrow>
        (case unify n (head clause_copy) current (Some \<theta>) of
           None \<Rightarrow> ([], Diverged)
         | Some None \<Rightarrow> or_loop n kb cls current \<theta> new_visited k c1
         | Some (Some \<theta>') \<Rightarrow>
             then_run
               (if body clause_copy = [] then k \<theta>' c1
                else fol_bc_and n kb (body clause_copy) (Some \<theta>') new_visited k c1)
               (or_loop n kb cls current \<theta> new_visited k)))"
| "fol_bc_and 0 kb goals \<theta>o visited k c = ([], Diverged)"
| "fol_bc_and (Suc n) kb goals None visited k c = ([], Finished c)"
| "fol_bc_and (Suc n) kb [] (Some \<theta>) visited k c = k \<theta> c"
| "fol_bc_and (Suc n) kb (first # rest) (Some \<theta>) visited k c =
     fol_bc_or n kb first \<theta> visited
       (\<lambda>\<theta>' c'. fol_bc_and n kb rest (Some \<theta>') visited k c') c"
  by pat_completeness auto

termination
  by (relation "inv_image (less_than <*lex*> less_than)
        (\<lambda>x. case x of
           Inl (n, _) \<Rightarrow> (n, 0)
         | Inr (Inl (n, kb, cls, _)) \<Rightarrow> (n, Suc (length cls))
         | Inr (Inr (n, _)) \<Rightarrow> (n, 0))") auto

datatype query = Single expr | Conj "expr list"

text \<open>The consumer of \<^verbatim>\<open>ask\<close>: it takes every substitution, as \<^verbatim>\<open>list(kb.ask(q))\<close> does.\<close>

definition collect :: "theta \<Rightarrow> nat \<Rightarrow> outcome" where
  "collect \<theta> c = ([\<theta>], Finished c)"

fun ask :: "nat \<Rightarrow> knowledge_base \<Rightarrow> query \<Rightarrow> nat \<Rightarrow> outcome" where
  "ask n kb (Conj goals) c = fol_bc_and n kb goals (Some []) {} collect c"
| "ask n kb (Single goal) c = fol_bc_or n kb goal [] {} collect c"

section \<open>The example knowledge base\<close>

text \<open>The clauses of the demonstration script, in the order it adds them.\<close>

definition family_clauses :: "clause list" where
  "family_clauses =
    [\<lparr>head = Predicate ''father'' [Constant ''abe'', Constant ''homer''], body = []\<rparr>,
     \<lparr>head = Predicate ''father'' [Constant ''homer'', Constant ''bart''], body = []\<rparr>,
     \<lparr>head = Predicate ''mother'' [Constant ''mona'', Constant ''bart''], body = []\<rparr>,
     \<lparr>head = Predicate ''parent'' [Variable ''x'', Variable ''y''],
        body = [Predicate ''father'' [Variable ''x'', Variable ''y'']]\<rparr>,
     \<lparr>head = Predicate ''parent'' [Variable ''x'', Variable ''y''],
        body = [Predicate ''mother'' [Variable ''x'', Variable ''y'']]\<rparr>,
     \<lparr>head = Predicate ''grandparent'' [Variable ''x'', Variable ''z''],
        body = [Predicate ''parent'' [Variable ''x'', Variable ''y''],
                Predicate ''parent'' [Variable ''y'', Variable ''z'']]\<rparr>,
     \<lparr>head = Predicate ''ancestor'' [Variable ''x'', Variable ''z''],
        body = [Predicate ''parent'' [Variable ''x'', Variable ''z'']]\<rparr>,
     \<lparr>head = Predicate ''ancestor'' [Variable ''x'', Variable ''z''],
        body = [Predicate ''parent'' [Variable ''x'', Variable ''y''],
                Predicate ''ancestor'' [Variable ''y'', Variable ''z'']]\<rparr>]"

text \<open>
  What the script does with a query: a new knowledge base, the clauses added one by one,
  then \<^verbatim>\<open>list(kb.ask(query))\<close>, with the global counter at \<open>c\<close> before.
\<close>

definition build_and_ask :: "nat \<Rightarrow> clause list \<Rightarrow> query \<Rightarrow> nat \<Rightarrow> py_error + outcome" where
  "build_and_ask n cs q c =
     (case add_clauses cs empty_kb of
        Inl e \<Rightarrow> Inl e
      | Inr kb \<Rightarrow> Inr (ask n kb q c))"

section \<open>What a substitution denotes\<close>

text \<open>
  The variables of an expression, the replacement of one variable, and the bindings of a
  substitution applied one after the other in insertion order. \<open>wf_theta\<close> says that
  each key is a variable that occurs neither in its own binding nor in any later entry:
  the substitutions that unification builds from the empty one. On them \<open>resolve\<close> is
  what \<^verbatim>\<open>substitute\<close> computes.
\<close>

fun vars :: "expr \<Rightarrow> expr set" where
  "vars (Variable v) = {Variable v}"
| "vars (Constant c) = {}"
| "vars (Function f as) = (\<Union>a \<in> set as. vars a)"
| "vars (Predicate p as) = (\<Union>a \<in> set as. vars a)"

fun replace :: "expr \<Rightarrow> expr \<Rightarrow> expr \<Rightarrow> expr" where
  "replace k t (Variable v) = (if Variable v = k then t else Variable v)"
| "replace k t (Constant c) = Constant c"
| "replace k t (Function f as) = Function f (map (replace k t) as)"
| "replace k t (Predicate p as) = Predicate p (map (replace k t) as)"

fun resolve :: "theta \<Rightarrow> expr \<Rightarrow> expr" where
  "resolve [] x = x"
| "resolve ((k, t) # \<theta>) x = resolve \<theta> (replace k t x)"

fun wf_theta :: "theta \<Rightarrow> bool" where
  "wf_theta [] = True"
| "wf_theta ((k, t) # \<theta>) =
     (is_variable k \<and> k \<notin> vars t \<and> k \<notin> fst ` set \<theta> \<and> (\<forall>t' \<in> snd ` set \<theta>. k \<notin> vars t') \<and> wf_theta \<theta>)"

text \<open>\<open>\<theta>'\<close> extends \<open>\<theta>\<close>, is well formed, and makes \<open>x\<close> and \<open>y\<close> equal.\<close>

definition unifies :: "theta \<Rightarrow> theta \<Rightarrow> expr \<Rightarrow> expr \<Rightarrow> bool" where
  "unifies \<theta> \<theta>' x y = (wf_theta \<theta>' \<and> (\<exists>e. \<theta>' = \<theta> @ e) \<and> resolve \<theta>' x = resolve \<theta>' y)"

text \<open>
  The substitutions that unification produces: the empty one, and every result of a
  successful \<^verbatim>\<open>unify\<close> on one of them, as the engine threads them.
\<close>

inductive produced :: "theta \<Rightarrow> bool" where
  empty: "produced []"
| step: "produced \<theta> \<Longrightarrow> unify n x y (Some \<theta>) = Some (Some \<theta>') \<Longrightarrow> produced \<theta>'"

section \<open>The index of the knowledge base\<close>

lemma add_clause_step:
  assumes "index_consistent kb" "add_clause c kb = Inr kb'"
  shows "index_consistent kb' \<and> clauses kb' = clauses kb @ [c]"
proof -
  from assms(2) obtain as where as: "args_of (head c) = Inr as"
    by (auto simp: add_clause_def split: sum.splits)
  let ?nm = "name_of (head c)"
  have kb': "kb' = \<lparr>clauses = clauses kb @ [c],
       index = (index kb)(?nm \<mapsto> (case index kb ?nm of None \<Rightarrow> Map.empty | Some d \<Rightarrow> d)
          (length as \<mapsto> bucket_of kb ?nm (length as) @ [c]))\<rparr>"
    using assms(2) as by (auto simp: add_clause_def Let_def bucket_of_def split: option.splits)
  have b: "bucket_of kb' nm ar =
      (if nm = ?nm \<and> ar = length as then bucket_of kb nm ar @ [c] else bucket_of kb nm ar)" for nm ar
    by (auto simp: kb' bucket_of_def split: option.splits)
  have s: "has_signature nm ar c = (nm = ?nm \<and> ar = length as)" for nm ar
    using as by (auto simp: has_signature_def)
  have c: "clauses kb' = clauses kb @ [c]" by (simp add: kb')
  show ?thesis
    using assms(1) by (auto simp: index_consistent_def b s c)
qed

lemma add_clauses_inv:
  "index_consistent kb \<Longrightarrow> add_clauses cs kb = Inr kb' \<Longrightarrow>
     index_consistent kb' \<and> clauses kb' = clauses kb @ cs"
proof (induction cs arbitrary: kb)
  case Nil then show ?case by simp
next
  case (Cons c cs)
  from Cons.prems(2) obtain k1 where k1: "add_clause c kb = Inr k1" "add_clauses cs k1 = Inr kb'"
    by (auto split: sum.splits)
  from add_clause_step[OF Cons.prems(1) k1(1)] Cons.IH[OF _ k1(2)] show ?case by simp
qed

lemma empty_consistent: "index_consistent empty_kb"
  by (simp add: index_consistent_def bucket_of_def empty_kb_def)

lemma add_clauses_total:
  "\<forall>c \<in> set cs. is_compound (head c) \<Longrightarrow> \<exists>kb'. add_clauses cs kb = Inr kb'"
proof (induction cs arbitrary: kb)
  case Nil then show ?case by simp
next
  case (Cons c cs)
  then have "is_compound (head c)" by simp
  then obtain as where "args_of (head c) = Inr as" by (cases "head c") auto
  then obtain k1 where "add_clause c kb = Inr k1" by (auto simp: add_clause_def Let_def)
  with Cons show ?case by auto
qed

lemma family_heads: "\<forall>c \<in> set family_clauses. is_compound (head c)"
  by (simp add: family_clauses_def)

text \<open>
  C9. After a sequence of \<^verbatim>\<open>add_clause\<close> calls on a new knowledge base (none of which
  raised: every head has a name and arguments), the clause sequence is the sequence of
  the clauses added, and for every name and arity the bucket of the index is the
  subsequence of the clauses whose head has that name and that number of arguments, in
  insertion order. So a clause is in the bucket of its own signature and in no other.
\<close>

theorem add_clauses_index_consistent:
  "add_clauses cs empty_kb = Inr kb \<Longrightarrow>
     clauses kb = cs \<and> (\<forall>nm ar. bucket_of kb nm ar = filter (has_signature nm ar) cs)"
  using add_clauses_inv[OF empty_consistent, of cs kb]
  by (simp add: index_consistent_def empty_kb_def)

theorem add_clauses_index_consistent_witness:
  "\<exists>kb. add_clauses family_clauses empty_kb = Inr kb \<and> clauses kb = family_clauses
     \<and> (\<forall>nm ar. bucket_of kb nm ar = filter (has_signature nm ar) family_clauses)"
proof -
  from add_clauses_total[OF family_heads] obtain kb
    where kb: "add_clauses family_clauses empty_kb = Inr kb" by blast
  from add_clauses_index_consistent[OF kb] kb show ?thesis by blast
qed

section \<open>Substitution and unification\<close>

lemma those_map_Some: "those (map f xs) = Some ys \<longleftrightarrow> map f xs = map Some ys"
proof (induction xs arbitrary: ys)
  case Nil then show ?case by auto
next
  case (Cons x xs) then show ?case by (cases "f x"; cases ys) (auto)
qed

lemma those_map_SomeD:
  "those (map f xs) = Some ys \<Longrightarrow> length ys = length xs \<and> (\<forall>i < length xs. f (xs ! i) = Some (ys ! i))"
  unfolding those_map_Some
  by (metis length_map nth_map)

lemma those_map_eq:
  "those (map f as) = Some rs \<Longrightarrow> (\<And>a r. a \<in> set as \<Longrightarrow> f a = Some r \<Longrightarrow> r = g a)
     \<Longrightarrow> rs = map g as"
proof (induction as arbitrary: rs)
  case Nil then show ?case by simp
next
  case (Cons a as)
  from Cons.prems(1) obtain r rs' where r: "f a = Some r" "those (map f as) = Some rs'" "rs = r # rs'"
    by (auto split: option.splits)
  have "r = g a" using Cons.prems(2) r(1) by simp
  moreover have "rs' = map g as" using Cons.IH[OF r(2)] Cons.prems(2) by simp
  ultimately show ?case using r(3) by simp
qed

lemma those_map_SomeI:
  "\<forall>a \<in> set xs. f a = Some (g a) \<Longrightarrow> those (map f xs) = Some (map g xs)"
  unfolding those_map_Some by simp

lemma substitute_mono: "substitute n x \<theta> = Some r \<Longrightarrow> substitute (Suc n) x \<theta> = Some r"
proof (induction n arbitrary: x r)
  case 0 then show ?case by simp
next
  case (Suc n)
  show ?case
  proof (cases x)
    case (Variable v)
    with Suc show ?thesis by (auto split: option.splits)
  next
    case (Constant c) with Suc.prems show ?thesis by auto
  next
    case (Function f as)
    with Suc.prems obtain rs where rs: "those (map (\<lambda>a. substitute n a \<theta>) as) = Some rs" "r = Function f rs"
      by auto
    then have "map (\<lambda>a. substitute n a \<theta>) as = map Some rs" by (simp add: those_map_Some)
    then have "map (\<lambda>a. substitute (Suc n) a \<theta>) as = map Some rs"
      using Suc.IH by (induction as arbitrary: rs) auto
    then show ?thesis using rs Function by (simp add: those_map_Some[symmetric])
  next
    case (Predicate f as)
    with Suc.prems obtain rs where rs: "those (map (\<lambda>a. substitute n a \<theta>) as) = Some rs" "r = Predicate f rs"
      by auto
    then have "map (\<lambda>a. substitute n a \<theta>) as = map Some rs" by (simp add: those_map_Some)
    then have "map (\<lambda>a. substitute (Suc n) a \<theta>) as = map Some rs"
      using Suc.IH by (induction as arbitrary: rs) auto
    then show ?thesis using rs Predicate by (simp add: those_map_Some[symmetric])
  qed
qed

lemma substitute_mono_le: "substitute n x \<theta> = Some r \<Longrightarrow> n \<le> m \<Longrightarrow> substitute m x \<theta> = Some r"
  by (induction m) (auto simp: le_Suc_eq substitute_mono)


lemma replace_id: "k \<notin> vars x \<Longrightarrow> replace k t x = x"
  by (induction x) (auto simp: map_idI)

lemma resolve_Constant: "resolve \<theta> (Constant c) = Constant c"
  by (induction \<theta>) auto

lemma resolve_Function: "resolve \<theta> (Function f as) = Function f (map (resolve \<theta>) as)"
proof (induction \<theta> arbitrary: as)
  case Nil show ?case by (simp add: map_idI)
next
  case (Cons p \<theta>)
  obtain k t where p: "p = (k, t)" by (cases p)
  show ?case by (simp add: p Cons.IH)
qed

lemma resolve_Predicate: "resolve \<theta> (Predicate f as) = Predicate f (map (resolve \<theta>) as)"
proof (induction \<theta> arbitrary: as)
  case Nil show ?case by (simp add: map_idI)
next
  case (Cons p \<theta>)
  obtain k t where p: "p = (k, t)" by (cases p)
  show ?case by (simp add: p Cons.IH)
qed

lemma resolve_append: "resolve (\<theta> @ \<theta>') x = resolve \<theta>' (resolve \<theta> x)"
  by (induction \<theta> arbitrary: x) auto

lemma resolve_unbound: "vars x \<inter> fst ` set \<theta> = {} \<Longrightarrow> resolve \<theta> x = x"
proof (induction \<theta> arbitrary: x)
  case Nil then show ?case by simp
next
  case (Cons p \<theta>)
  obtain k t where p: "p = (k, t)" by (cases p)
  with Cons.prems have "k \<notin> vars x" by auto
  then have "replace k t x = x" by (rule replace_id)
  with Cons p show ?case by auto
qed

lemma wf_keys_variable: "wf_theta \<theta> \<Longrightarrow> k \<in> fst ` set \<theta> \<Longrightarrow> is_variable k"
proof (induction \<theta>)
  case Nil then show ?case by simp
next
  case (Cons p \<theta>)
  obtain k1 t1 where p: "p = (k1, t1)" by (cases p)
  from Cons.prems p have "k = k1 \<or> k \<in> fst ` set \<theta>" by auto
  with Cons p show ?case by auto
qed

lemma resolve_lookup:
  "wf_theta \<theta> \<Longrightarrow> map_of \<theta> k = Some t \<Longrightarrow> resolve \<theta> k = resolve \<theta> t"
proof (induction \<theta>)
  case Nil then show ?case by simp
next
  case (Cons p \<theta>)
  obtain k1 t1 where p: "p = (k1, t1)" by (cases p)
  from Cons.prems p have wf: "is_variable k1" "k1 \<notin> vars t1" "k1 \<notin> fst ` set \<theta>"
    "\<forall>t' \<in> snd ` set \<theta>. k1 \<notin> vars t'" "wf_theta \<theta>" by auto
  show ?case
  proof (cases "k = k1")
    case True
    with Cons.prems p have "t = t1" by simp
    moreover have "replace k1 t1 k1 = t1" using wf(1) by (cases k1) auto
    moreover have "replace k1 t1 t1 = t1" using wf(2) by (rule replace_id)
    ultimately show ?thesis using True p by simp
  next
    case False
    with Cons.prems p have m: "map_of \<theta> k = Some t" by simp
    then have "(k, t) \<in> set \<theta>" by (rule map_of_SomeD)
    then have "k \<in> fst ` set \<theta>" "t \<in> snd ` set \<theta>" by force+
    then have "is_variable k" "k1 \<notin> vars t" using wf wf_keys_variable by auto
    then have "replace k1 t1 k = k" "replace k1 t1 t = t" using False
      by (cases k; auto simp: replace_id)+
    with Cons.IH[OF wf(5) m] p show ?thesis by simp
  qed
qed

lemma substitute_unbound:
  "substitute n x \<theta> = Some r \<Longrightarrow> vars x \<inter> fst ` set \<theta> = {} \<Longrightarrow> r = x"
proof (induction n arbitrary: x r)
  case 0 then show ?case by simp
next
  case (Suc n)
  have args: "rs = as" if rs: "those (map (\<lambda>a. substitute n a \<theta>) as) = Some rs"
    and sub: "\<And>a. a \<in> set as \<Longrightarrow> vars a \<subseteq> vars x" for as rs
  proof -
    have "rs = map (\<lambda>a. a) as"
    proof (rule those_map_eq[OF rs])
      fix a r assume a: "a \<in> set as" "substitute n a \<theta> = Some r"
      from sub[OF a(1)] Suc.prems(2) have "vars a \<inter> fst ` set \<theta> = {}" by blast
      with a(2) show "r = a" by (rule Suc.IH)
    qed
    then show ?thesis by simp
  qed
  show ?case
  proof (cases x)
    case (Variable v)
    with Suc.prems(2) have "map_of \<theta> (Variable v) = None" by (simp add: map_of_eq_None_iff)
    with Suc.prems(1) Variable show ?thesis by simp
  next
    case (Constant c) with Suc.prems(1) show ?thesis by simp
  next
    case (Function f as)
    with Suc.prems(1) obtain rs where rs: "those (map (\<lambda>a. substitute n a \<theta>) as) = Some rs" "r = Function f rs"
      by auto
    have "rs = as" using rs(1) by (rule args) (auto simp: Function)
    with rs Function show ?thesis by simp
  next
    case (Predicate f as)
    with Suc.prems(1) obtain rs where rs: "those (map (\<lambda>a. substitute n a \<theta>) as) = Some rs" "r = Predicate f rs"
      by auto
    have "rs = as" using rs(1) by (rule args) (auto simp: Predicate)
    with rs Predicate show ?thesis by simp
  qed
qed

lemma substitute_resolve:
  "wf_theta \<theta> \<Longrightarrow> substitute n x \<theta> = Some r \<Longrightarrow> r = resolve \<theta> x"
proof (induction n arbitrary: x r)
  case 0 then show ?case by simp
next
  case (Suc n)
  have args: "rs = map (resolve \<theta>) as" if rs: "those (map (\<lambda>a. substitute n a \<theta>) as) = Some rs" for as rs
    by (rule those_map_eq[OF rs]) (rule Suc.IH[OF Suc.prems(1)])
  show ?case
  proof (cases x)
    case (Variable v)
    show ?thesis
    proof (cases "map_of \<theta> (Variable v)")
      case None
      then have "vars x \<inter> fst ` set \<theta> = {}" using Variable by (simp add: map_of_eq_None_iff)
      then have "resolve \<theta> x = x" by (rule resolve_unbound)
      with None Suc.prems(2) Variable show ?thesis by simp
    next
      case (Some t)
      with Suc.prems(2) Variable have "substitute n t \<theta> = Some r" by simp
      then have "r = resolve \<theta> t" by (rule Suc.IH[OF Suc.prems(1)])
      with resolve_lookup[OF Suc.prems(1) Some] Variable show ?thesis by simp
    qed
  next
    case (Constant c)
    with Suc.prems(2) have "r = Constant c" by simp
    with Constant show ?thesis by (simp add: resolve_Constant)
  next
    case (Function f as)
    with Suc.prems(2) obtain rs where rs: "those (map (\<lambda>a. substitute n a \<theta>) as) = Some rs" "r = Function f rs"
      by auto
    with args[OF rs(1)] Function show ?thesis by (simp add: resolve_Function)
  next
    case (Predicate f as)
    with Suc.prems(2) obtain rs where rs: "those (map (\<lambda>a. substitute n a \<theta>) as) = Some rs" "r = Predicate f rs"
      by auto
    with args[OF rs(1)] Predicate show ?thesis by (simp add: resolve_Predicate)
  qed
qed


lemma update_fresh: "map_of \<theta> k = None \<Longrightarrow> AList.update k v \<theta> = \<theta> @ [(k, v)]"
  by (induction \<theta>) (auto split: if_splits)

lemma vars_replace: "vars (replace k t x) \<subseteq> (vars x - {k}) \<union> vars t"
  by (induction x) auto

lemma vars_resolve_subset: "vars (resolve \<theta> x) \<subseteq> vars x \<union> (\<Union>t \<in> snd ` set \<theta>. vars t)"
proof (induction \<theta> arbitrary: x)
  case Nil show ?case by simp
next
  case (Cons p \<theta>)
  obtain k t where p: "p = (k, t)" by (cases p)
  have "vars (resolve \<theta> (replace k t x)) \<subseteq> vars (replace k t x) \<union> (\<Union>t \<in> snd ` set \<theta>. vars t)"
    by (rule Cons.IH)
  also have "\<dots> \<subseteq> vars x \<union> vars t \<union> (\<Union>t \<in> snd ` set \<theta>. vars t)"
    using vars_replace[of k t x] by blast
  finally show ?case by (auto simp: p)
qed

lemma vars_resolve:
  "wf_theta \<theta> \<Longrightarrow> vars (resolve \<theta> x) \<inter> fst ` set \<theta> = {}"
proof (induction \<theta> arbitrary: x)
  case Nil show ?case by simp
next
  case (Cons p \<theta>)
  obtain k t where p: "p = (k, t)" by (cases p)
  from Cons.prems p have wf: "k \<notin> vars t" "\<forall>t' \<in> snd ` set \<theta>. k \<notin> vars t'" "wf_theta \<theta>" by auto
  have "k \<notin> vars (replace k t x)" using vars_replace[of k t x] wf(1) by blast
  then have "k \<notin> vars (resolve \<theta> (replace k t x))"
    using vars_resolve_subset[of \<theta> "replace k t x"] wf(2) by blast
  with Cons.IH[OF wf(3), of "replace k t x"] show ?case by (auto simp: p)
qed

lemma wf_theta_append:
  "wf_theta \<theta> \<Longrightarrow> is_variable k \<Longrightarrow> k \<notin> fst ` set \<theta> \<Longrightarrow> k \<notin> vars t \<Longrightarrow>
     vars t \<inter> fst ` set \<theta> = {} \<Longrightarrow> wf_theta (\<theta> @ [(k, t)])"
proof (induction \<theta>)
  case Nil then show ?case by simp
next
  case (Cons p \<theta>)
  obtain k1 t1 where p: "p = (k1, t1)" by (cases p)
  from Cons.prems p have "wf_theta (\<theta> @ [(k, t)])" by (intro Cons.IH) auto
  with Cons.prems p show ?case by auto
qed

lemma first_true_False: "first_true rs = Some False \<Longrightarrow> \<forall>r \<in> set rs. r = Some False"
  by (induction rs rule: first_true.induct) auto

lemma occurs_check_sound:
  "occurs_check n var x \<theta> = Some False \<Longrightarrow> vars x \<inter> fst ` set \<theta> = {} \<Longrightarrow> var \<notin> vars x"
proof (induction n arbitrary: x)
  case 0 then show ?case by simp
next
  case (Suc n)
  from Suc.prems(1) obtain x' where x': "substitute n x \<theta> = Some x'"
    by (auto split: option.splits)
  have [simp]: "x' = x" using x' Suc.prems(2) by (rule substitute_unbound)
  from Suc.prems(1) x' have ne: "var \<noteq> x" by (auto split: if_splits)
  have args: "var \<notin> vars a" if "first_true (map (\<lambda>a. occurs_check n var a \<theta>) as) = Some False"
     "a \<in> set as" "vars a \<subseteq> vars x" for as a
  proof -
    from first_true_False[OF that(1)] that(2) have "occurs_check n var a \<theta> = Some False" by auto
    moreover have "vars a \<inter> fst ` set \<theta> = {}" using that(3) Suc.prems(2) by blast
    ultimately show ?thesis by (rule Suc.IH)
  qed
  show ?case
  proof (cases x)
    case (Variable v) with ne show ?thesis by auto
  next
    case (Constant c) then show ?thesis by simp
  next
    case (Function f as)
    with Suc.prems(1) x' ne have "first_true (map (\<lambda>a. occurs_check n var a \<theta>) as) = Some False"
      by simp
    from args[OF this] Function show ?thesis by auto
  next
    case (Predicate f as)
    with Suc.prems(1) x' ne have "first_true (map (\<lambda>a. occurs_check n var a \<theta>) as) = Some False"
      by simp
    from args[OF this] Predicate show ?thesis by auto
  qed
qed

lemma unify_var_fresh:
  assumes "unify_var n var x \<theta> = Some (Some \<theta>')" "map_of \<theta> var = None"
    "vars x \<inter> fst ` set \<theta> = {}"
  shows "\<theta>' = \<theta> @ [(var, x)] \<and> var \<notin> vars x"
proof (cases n)
  case 0 with assms(1) show ?thesis by simp
next
  case (Suc m)
  have "(if is_variable x then map_of \<theta> x else None) = None"
    using assms(3) by (cases x) (auto simp: map_of_eq_None_iff)
  with assms(1,2) Suc have oc: "occurs_check m var x \<theta> = Some False" "\<theta>' = AList.update var x \<theta>"
    by (auto split: option.splits bool.splits)
  from occurs_check_sound[OF oc(1) assms(3)] oc(2) update_fresh[OF assms(2)] show ?thesis by simp
qed


lemma map_zip_eq:
  "length xs = length ys \<Longrightarrow> \<forall>(a, b) \<in> set (zip xs ys). f a = f b \<Longrightarrow> map f xs = map f ys"
  by (induction xs ys rule: list_induct2) auto

lemma unify_args_sound:
  assumes U: "\<And>x y \<theta> \<theta>'. wf_theta \<theta> \<Longrightarrow> unify n x y (Some \<theta>) = Some (Some \<theta>') \<Longrightarrow> unifies \<theta> \<theta>' x y"
  shows "wf_theta \<theta> \<Longrightarrow> unify_args n ps (Some \<theta>) = Some (Some \<theta>') \<Longrightarrow>
     wf_theta \<theta>' \<and> (\<exists>e. \<theta>' = \<theta> @ e) \<and> (\<forall>(a, b) \<in> set ps. resolve \<theta>' a = resolve \<theta>' b)"
proof (induction ps arbitrary: \<theta>)
  case Nil then show ?case by simp
next
  case (Cons p ps)
  obtain a b where p: "p = (a, b)" by (cases p)
  from Cons.prems(2) p obtain \<theta>1 where
    t1: "unify n a b (Some \<theta>) = Some (Some \<theta>1)" "unify_args n ps (Some \<theta>1) = Some (Some \<theta>')"
    by (auto split: option.splits)
  from U[OF Cons.prems(1) t1(1)] obtain e1 where
    u1: "wf_theta \<theta>1" "\<theta>1 = \<theta> @ e1" "resolve \<theta>1 a = resolve \<theta>1 b"
    by (auto simp: unifies_def)
  from Cons.IH[OF u1(1) t1(2)] obtain e2 where
    u2: "wf_theta \<theta>'" "\<theta>' = \<theta>1 @ e2" "\<forall>(a, b) \<in> set ps. resolve \<theta>' a = resolve \<theta>' b"
    by auto
  have "resolve \<theta>' a = resolve \<theta>' b" using u1(3) u2(2) by (simp add: resolve_append)
  moreover have "\<theta>' = \<theta> @ (e1 @ e2)" using u1(2) u2(2) by simp
  ultimately show ?case using u2 p by auto
qed

lemma resolve_variable_binding:
  assumes "is_variable k" "k \<notin> vars t" "resolve \<theta> x = k" "resolve \<theta> y = t"
  shows "resolve (\<theta> @ [(k, t)]) x = resolve (\<theta> @ [(k, t)]) y"
proof -
  have "replace k t k = t" using assms(1) by (cases k) auto
  moreover have "replace k t t = t" using assms(2) by (rule replace_id)
  ultimately show ?thesis using assms(3,4) by (simp add: resolve_append)
qed

lemma resolve_compound:
  "is_compound x \<Longrightarrow> is_compound y \<Longrightarrow> class_of x = class_of y \<Longrightarrow> name_of x = name_of y \<Longrightarrow>
   map (resolve \<theta>) (args x) = map (resolve \<theta>) (args y) \<Longrightarrow> resolve \<theta> x = resolve \<theta> y"
  by (cases x; cases y) (auto simp: resolve_Function resolve_Predicate)

lemma unify_step_sound:
  assumes A: "\<And>ps \<theta> \<theta>'. wf_theta \<theta> \<Longrightarrow> unify_args n ps (Some \<theta>) = Some (Some \<theta>') \<Longrightarrow>
     wf_theta \<theta>' \<and> (\<exists>e. \<theta>' = \<theta> @ e) \<and> (\<forall>(a, b) \<in> set ps. resolve \<theta>' a = resolve \<theta>' b)"
    and wf: "wf_theta \<theta>" and u: "unify (Suc n) x y (Some \<theta>) = Some (Some \<theta>')"
  shows "unifies \<theta> \<theta>' x y"
proof (cases "x = y")
  case True
  with u wf show ?thesis by (simp add: unifies_def)
next
  case False
  with u obtain x' y' where s: "substitute n x \<theta> = Some x'" "substitute n y \<theta> = Some y'"
    by (auto split: option.splits)
  have x': "x' = resolve \<theta> x" and y': "y' = resolve \<theta> y"
    using substitute_resolve[OF wf] s by auto
  have fx: "vars x' \<inter> fst ` set \<theta> = {}" and fy: "vars y' \<inter> fst ` set \<theta> = {}"
    using vars_resolve[OF wf] x' y' by auto
  have var_case: "unifies \<theta> \<theta>' a b"
    if v: "is_variable k" and r: "resolve \<theta> a = k" "resolve \<theta> b = t"
      and fk: "vars k \<inter> fst ` set \<theta> = {}" and ft: "vars t \<inter> fst ` set \<theta> = {}"
      and uv: "unify_var n k t \<theta> = Some (Some \<theta>')" for k t a b
  proof -
    from v fk have nk: "k \<notin> fst ` set \<theta>" by (cases k) auto
    then have "map_of \<theta> k = None" by (simp add: map_of_eq_None_iff)
    from unify_var_fresh[OF uv this ft] have t': "\<theta>' = \<theta> @ [(k, t)]" "k \<notin> vars t" by auto
    have "wf_theta \<theta>'" unfolding t'(1) using wf v nk t'(2) ft by (rule wf_theta_append)
    moreover have "resolve \<theta>' a = resolve \<theta>' b"
      unfolding t'(1) using v t'(2) r by (rule resolve_variable_binding)
    ultimately show ?thesis using t'(1) by (auto simp: unifies_def)
  qed
  show ?thesis
  proof (cases "is_variable x'")
    case True
    with u False s have "unify_var n x' y' \<theta> = Some (Some \<theta>')" by simp
    with var_case[OF True x'[symmetric] y'[symmetric] fx fy] show ?thesis by simp
  next
    case nx: False
    show ?thesis
    proof (cases "is_variable y'")
      case True
      with u False s nx have "unify_var n y' x' \<theta> = Some (Some \<theta>')" by simp
      from var_case[OF True y'[symmetric] x'[symmetric] fy fx this]
      show ?thesis by (auto simp: unifies_def)
    next
      case ny: False
      with u False s nx have c: "is_compound x'" "is_compound y'" "class_of x' = class_of y'"
        "name_of x' = name_of y'" "length (args x') = length (args y')"
        and ua: "unify_args n (zip (args x') (args y')) (Some \<theta>) = Some (Some \<theta>')"
        by (auto split: if_splits)
      from A[OF wf ua] obtain e where
        r: "wf_theta \<theta>'" "\<theta>' = \<theta> @ e" "\<forall>(a, b) \<in> set (zip (args x') (args y')). resolve \<theta>' a = resolve \<theta>' b"
        by auto
      from map_zip_eq[OF c(5) r(3)] have "resolve \<theta>' x' = resolve \<theta>' y'"
        using c by (intro resolve_compound)
      moreover have "resolve \<theta>' x = resolve \<theta>' x'" "resolve \<theta>' y = resolve \<theta>' y'"
        using resolve_unbound[OF fx] resolve_unbound[OF fy] x' y' r(2) by (simp_all add: resolve_append)
      ultimately show ?thesis using r by (auto simp: unifies_def)
    qed
  qed
qed

lemma unify_sound_aux:
  "(\<forall>x y \<theta> \<theta>'. wf_theta \<theta> \<longrightarrow> unify n x y (Some \<theta>) = Some (Some \<theta>') \<longrightarrow> unifies \<theta> \<theta>' x y)"
proof (induction n)
  case 0 show ?case by simp
next
  case (Suc n)
  have A: "wf_theta \<theta> \<Longrightarrow> unify_args n ps (Some \<theta>) = Some (Some \<theta>') \<Longrightarrow>
     wf_theta \<theta>' \<and> (\<exists>e. \<theta>' = \<theta> @ e) \<and> (\<forall>(a, b) \<in> set ps. resolve \<theta>' a = resolve \<theta>' b)" for ps \<theta> \<theta>'
    using Suc.IH by (intro unify_args_sound) auto
  show ?case using unify_step_sound[OF A] by blast
qed

lemma unify_sound:
  "wf_theta \<theta> \<Longrightarrow> unify n x y (Some \<theta>) = Some (Some \<theta>') \<Longrightarrow> unifies \<theta> \<theta>' x y"
  using unify_sound_aux by blast

subsection \<open>\<^verbatim>\<open>substitute\<close> returns on a well-formed substitution\<close>

lemma substitute_cons_unused:
  "k \<notin> vars x \<Longrightarrow> \<forall>t' \<in> snd ` set \<theta>. k \<notin> vars t' \<Longrightarrow>
     substitute n x ((k, t) # \<theta>) = substitute n x \<theta>"
proof (induction n arbitrary: x)
  case 0 show ?case by simp
next
  case (Suc n)
  have args: "map (\<lambda>a. substitute n a ((k, t) # \<theta>)) as = map (\<lambda>a. substitute n a \<theta>) as"
    if "\<And>a. a \<in> set as \<Longrightarrow> k \<notin> vars a" for as
    using that Suc.IH[OF _ Suc.prems(2)] by (intro map_cong) auto
  show ?case
  proof (cases x)
    case (Variable v)
    with Suc.prems(1) have ne: "Variable v \<noteq> k" by auto
    show ?thesis
    proof (cases "map_of \<theta> (Variable v)")
      case None with ne Variable show ?thesis by simp
    next
      case (Some u)
      then have "u \<in> snd ` set \<theta>" by (force dest: map_of_SomeD)
      with Suc.prems(2) have "k \<notin> vars u" by blast
      from Suc.IH[OF this Suc.prems(2)] Some ne Variable show ?thesis by simp
    qed
  next
    case (Constant c) then show ?thesis by simp
  next
    case (Function f as)
    with Suc.prems(1) have "\<And>a. a \<in> set as \<Longrightarrow> k \<notin> vars a" by auto
    from args[OF this] show ?thesis unfolding Function by (simp only: substitute.simps)
  next
    case (Predicate f as)
    with Suc.prems(1) have "\<And>a. a \<in> set as \<Longrightarrow> k \<notin> vars a" by auto
    from args[OF this] show ?thesis unfolding Predicate by (simp only: substitute.simps)
  qed
qed

lemma substitute_cons:
  assumes wf: "wf_theta ((k, t) # \<theta>)"
  shows "substitute n (replace k t x) \<theta> = Some r \<Longrightarrow> substitute (Suc n) x ((k, t) # \<theta>) = Some r"
proof (induction n arbitrary: x r)
  case 0 then show ?case by simp
next
  case (Suc n)
  from wf have w: "k \<notin> vars t" "\<forall>t' \<in> snd ` set \<theta>. k \<notin> vars t'" by auto
  have args: "those (map (\<lambda>a. substitute (Suc n) a ((k, t) # \<theta>)) as) = Some rs"
    if "those (map (\<lambda>a. substitute n (replace k t a) \<theta>) as) = Some rs" for as rs
    using that
  proof (induction as arbitrary: rs)
    case Nil then show ?case by simp
  next
    case (Cons a as)
    from Cons.prems obtain r' rs' where
      r: "substitute n (replace k t a) \<theta> = Some r'"
         "those (map (\<lambda>a. substitute n (replace k t a) \<theta>) as) = Some rs'" "rs = r' # rs'"
      by (auto split: option.splits)
    from Suc.IH[OF r(1)] Cons.IH[OF r(2)] r(3) show ?case by simp
  qed
  show ?case
  proof (cases x)
    case (Variable v)
    show ?thesis
    proof (cases "Variable v = k")
      case True
      then have "replace k t x = t" using Variable by auto
      with Suc.prems have "substitute (Suc n) t \<theta> = Some r" by simp
      then have "substitute (Suc n) t ((k, t) # \<theta>) = Some r"
        using substitute_cons_unused[OF w] by simp
      then have "substitute (Suc (Suc n)) (Variable v) ((Variable v, t) # \<theta>) = Some r"
        unfolding True[symmetric] by simp
      then show ?thesis unfolding Variable True[symmetric] .
    next
      case False
      then have "replace k t x = Variable v" using Variable by simp
      with Suc.prems have s: "substitute (Suc n) (Variable v) \<theta> = Some r" by simp
      have m: "map_of ((k, t) # \<theta>) (Variable v) = map_of \<theta> (Variable v)"
        using False by simp
      show ?thesis
      proof (cases "map_of \<theta> (Variable v)")
        case None
        with s have r: "r = Variable v" by simp
        have "substitute (Suc (Suc n)) (Variable v) ((k, t) # \<theta>) = Some (Variable v)"
          unfolding substitute.simps m None by simp
        then show ?thesis unfolding Variable r .
      next
        case (Some u)
        then have "u \<in> snd ` set \<theta>" by (force dest: map_of_SomeD)
        with w(2) have ku: "k \<notin> vars u" by blast
        from s Some have "substitute n u \<theta> = Some r" by simp
        then have "substitute (Suc n) u \<theta> = Some r" by (rule substitute_mono)
        then have "substitute (Suc n) u ((k, t) # \<theta>) = Some r"
          using substitute_cons_unused[OF ku w(2)] by simp
        then have "substitute (Suc (Suc n)) (Variable v) ((k, t) # \<theta>) = Some r"
          unfolding substitute.simps m Some by simp
        then show ?thesis unfolding Variable .
      qed
    qed
  next
    case (Constant c)
    with Suc.prems have "r = Constant c" by simp
    then show ?thesis unfolding Constant by simp
  next
    case (Function f as)
    with Suc.prems obtain rs where
      rs: "those (map (\<lambda>a. substitute n (replace k t a) \<theta>) as) = Some rs" "r = Function f rs"
      by (auto simp: comp_def)
    from args[OF rs(1)] rs(2) Function show ?thesis by simp
  next
    case (Predicate f as)
    with Suc.prems obtain rs where
      rs: "those (map (\<lambda>a. substitute n (replace k t a) \<theta>) as) = Some rs" "r = Predicate f rs"
      by (auto simp: comp_def)
    from args[OF rs(1)] rs(2) Predicate show ?thesis by simp
  qed
qed

lemma substitute_fuel_list:
  "\<forall>a \<in> set as. \<exists>n. substitute n a \<theta> = Some (g a) \<Longrightarrow>
     \<exists>n. \<forall>a \<in> set as. substitute n a \<theta> = Some (g a)"
proof (induction as)
  case Nil show ?case by simp
next
  case (Cons a as)
  then obtain n m where n: "substitute n a \<theta> = Some (g a)"
    and m: "\<forall>a \<in> set as. substitute m a \<theta> = Some (g a)" by auto
  have "\<forall>b \<in> set (a # as). substitute (max n m) b \<theta> = Some (g b)"
    using n m by (auto intro: substitute_mono_le)
  then show ?case by blast
qed

lemma substitute_compound_total:
  assumes "\<forall>a \<in> set as. \<exists>n. substitute n a \<theta> = Some (g a)"
  shows "\<exists>n. substitute n (Function f as) \<theta> = Some (Function f (map g as))
           \<and> substitute n (Predicate f as) \<theta> = Some (Predicate f (map g as))"
proof -
  from substitute_fuel_list[OF assms] obtain n where
    "\<forall>a \<in> set as. substitute n a \<theta> = Some (g a)" by blast
  then have "those (map (\<lambda>a. substitute n a \<theta>) as) = Some (map g as)" by (rule those_map_SomeI)
  then have "substitute (Suc n) (Function f as) \<theta> = Some (Function f (map g as))
     \<and> substitute (Suc n) (Predicate f as) \<theta> = Some (Predicate f (map g as))" by simp
  then show ?thesis by blast
qed

lemma substitute_empty_total: "\<exists>n. substitute n x [] = Some x"
proof (induction x)
  case (Variable v)
  have "substitute (Suc 0) (Variable v) [] = Some (Variable v)" by simp
  then show ?case by blast
next
  case (Constant c)
  have "substitute (Suc 0) (Constant c) [] = Some (Constant c)" by simp
  then show ?case by blast
next
  case (Function f as)
  then have "\<forall>a \<in> set as. \<exists>n. substitute n a [] = Some ((\<lambda>a. a) a)" by simp
  from substitute_compound_total[OF this, of f] show ?case by auto
next
  case (Predicate f as)
  then have "\<forall>a \<in> set as. \<exists>n. substitute n a [] = Some ((\<lambda>a. a) a)" by simp
  from substitute_compound_total[OF this, of f] show ?case by auto
qed

lemma substitute_total: "wf_theta \<theta> \<Longrightarrow> \<exists>n. substitute n x \<theta> = Some (resolve \<theta> x)"
proof (induction \<theta> arbitrary: x)
  case Nil show ?case using substitute_empty_total by simp
next
  case (Cons p \<theta>)
  obtain k t where p: "p = (k, t)" by (cases p)
  from Cons.prems p have "wf_theta \<theta>" by simp
  from Cons.IH[OF this, of "replace k t x"] obtain n where
    "substitute n (replace k t x) \<theta> = Some (resolve \<theta> (replace k t x))" by blast
  from substitute_cons[OF Cons.prems[unfolded p] this] show ?case unfolding p by auto
qed

subsection \<open>Soundness of unification\<close>

lemma produced_wf: "produced \<theta> \<Longrightarrow> wf_theta \<theta>"
proof (induction rule: produced.induct)
  case empty show ?case by simp
next
  case (step \<theta> n x y \<theta>')
  from unify_sound[OF step.IH step.hyps(2)] show ?case by (simp add: unifies_def)
qed

lemma substitute_both:
  assumes "wf_theta \<theta>"
  shows "\<exists>m. substitute m x \<theta> = Some (resolve \<theta> x) \<and> substitute m y \<theta> = Some (resolve \<theta> y)"
proof -
  from substitute_total[OF assms] obtain n1 n2 where
    "substitute n1 x \<theta> = Some (resolve \<theta> x)" "substitute n2 y \<theta> = Some (resolve \<theta> y)" by blast
  then have "substitute (max n1 n2) x \<theta> = Some (resolve \<theta> x)"
    "substitute (max n1 n2) y \<theta> = Some (resolve \<theta> y)"
    by (auto intro: substitute_mono_le)
  then show ?thesis by blast
qed

lemma resolve_idem: "wf_theta \<theta> \<Longrightarrow> resolve \<theta> (resolve \<theta> x) = resolve \<theta> x"
  by (intro resolve_unbound vars_resolve)

text \<open>
  C1. If \<^verbatim>\<open>unify(x, y, {})\<close> returns a substitution \<open>\<theta>\<close>, then \<^verbatim>\<open>substitute(x, \<theta>)\<close> and
  \<^verbatim>\<open>substitute(y, \<theta>)\<close> both return, and return the same expression.
\<close>

theorem unify_soundness:
  "unify n x y (Some []) = Some (Some \<theta>) \<Longrightarrow>
     \<exists>m t. substitute m x \<theta> = Some t \<and> substitute m y \<theta> = Some t"
proof -
  assume u: "unify n x y (Some []) = Some (Some \<theta>)"
  have "wf_theta []" by simp
  from unify_sound[OF this u] have wf: "wf_theta \<theta>" and eq: "resolve \<theta> x = resolve \<theta> y"
    by (auto simp: unifies_def)
  from substitute_both[OF wf, of x y] eq show ?thesis by auto
qed

theorem unify_soundness_witness:
  "unify 10 (Function ''f'' [Variable ''a'', Constant ''c''])
            (Function ''f'' [Constant ''b'', Variable ''d'']) (Some [])
     = Some (Some [(Variable ''a'', Constant ''b''), (Variable ''d'', Constant ''c'')])
   \<and> (\<exists>m t. substitute m (Function ''f'' [Variable ''a'', Constant ''c''])
                 [(Variable ''a'', Constant ''b''), (Variable ''d'', Constant ''c'')] = Some t
            \<and> substitute m (Function ''f'' [Constant ''b'', Variable ''d''])
                 [(Variable ''a'', Constant ''b''), (Variable ''d'', Constant ''c'')] = Some t)"
proof -
  have u: "unify 10 (Function ''f'' [Variable ''a'', Constant ''c''])
            (Function ''f'' [Constant ''b'', Variable ''d'']) (Some [])
     = Some (Some [(Variable ''a'', Constant ''b''), (Variable ''d'', Constant ''c'')])"
    by code_simp
  from unify_soundness[OF u] u show ?thesis by blast
qed

text \<open>
  C7. For a substitution \<open>\<theta>\<close> produced by successful unification and every expression
  \<open>t\<close>, \<^verbatim>\<open>substitute(t, \<theta>)\<close> returns an expression \<open>r\<close>, and substituting again leaves
  it as it is: \<^verbatim>\<open>substitute(r, \<theta>)\<close> returns \<open>r\<close>.
\<close>

theorem substitute_idempotent:
  "produced \<theta> \<Longrightarrow> \<exists>m r. substitute m t \<theta> = Some r \<and> substitute m r \<theta> = Some r"
proof -
  assume "produced \<theta>"
  then have wf: "wf_theta \<theta>" by (rule produced_wf)
  from substitute_both[OF wf, of t "resolve \<theta> t"] resolve_idem[OF wf, of t]
  show ?thesis by auto
qed

theorem substitute_idempotent_witness:
  "produced [(Variable ''a'', Function ''g'' [Variable ''b'']), (Variable ''b'', Constant ''c'')]
   \<and> (\<exists>m r. substitute m (Function ''h'' [Variable ''a''])
               [(Variable ''a'', Function ''g'' [Variable ''b'']), (Variable ''b'', Constant ''c'')] = Some r
          \<and> substitute m r
               [(Variable ''a'', Function ''g'' [Variable ''b'']), (Variable ''b'', Constant ''c'')] = Some r)"
proof -
  have u: "unify 10 (Function ''f'' [Variable ''a'', Variable ''b''])
                    (Function ''f'' [Function ''g'' [Variable ''b''], Constant ''c'']) (Some [])
     = Some (Some [(Variable ''a'', Function ''g'' [Variable ''b'']), (Variable ''b'', Constant ''c'')])"
    by code_simp
  have p: "produced [(Variable ''a'', Function ''g'' [Variable ''b'']), (Variable ''b'', Constant ''c'')]"
    by (rule produced.step[OF produced.empty u])
  from substitute_idempotent[OF p] p show ?thesis by blast
qed

end
